theory Spec2Isabelle
  imports Main
begin

section \<open>The time-shift ring buffer of src/live/livequeue.cpp\<close>

text \<open>
  The theory embeds \<^verbatim>\<open>LiveQueue\<close>: the two file cursors over the ring-buffer file,
  the wrap flags, the keyframe index, the bounded submission queue and the operations
  \<^verbatim>\<open>queue\<close>, \<^verbatim>\<open>write\<close>, \<^verbatim>\<open>trim\<close>, \<^verbatim>\<open>read\<close>, \<^verbatim>\<open>internalRead\<close>, \<^verbatim>\<open>pause\<close>,
  \<^verbatim>\<open>seek\<close> and \<^verbatim>\<open>seekNextKeyFrame\<close>. Mutation of the object is explicit state
  passing. File offsets (\<^verbatim>\<open>off_t\<close>), wall-clock milliseconds and presentation time
  stamps (\<^verbatim>\<open>int64_t\<close>) are \<open>int\<close>: the code only adds a packet length to an offset and
  compares, far below the 64-bit range. Both file descriptors are taken to be open.
\<close>

subsection \<open>Data\<close>

text \<open>
  Modelled from the spec: the packet class \<^verbatim>\<open>MsgPacket\<close> (net/msgpacket.h) and the
  enumerations of \<^verbatim>\<open>StreamInfo\<close> are not part of the sources at hand. A packet is an
  opaque object that reports its encoded length (\<^verbatim>\<open>getPacketLength\<close>) and carries a
  keyframe flag, which stands for \<^verbatim>\<open>getClientID() == StreamInfo::FrameType::ftIFRAME\<close>;
  \<open>payload\<close> only tells packets apart. The content kind is VIDEO, AUDIO or other.
\<close>

record MsgPacket =
  packetLength :: nat
  isIFrame :: bool
  payload :: nat

datatype Content = scVIDEO | scAUDIO | scNONE

text \<open>\<^verbatim>\<open>PacketData\<close>: one entry \<^verbatim>\<open>{p, content, pts}\<close> of the submission queue.\<close>

datatype PacketData = PacketData (data_p: MsgPacket) (data_content: Content) (data_pts: int)

text \<open>One entry \<^verbatim>\<open>{filePosition, wallclockTime, pts, wrapCount}\<close> of \<^verbatim>\<open>m_indexList\<close>.\<close>

record IndexEntry =
  filePosition :: int
  wallclockTime :: int
  pts :: int
  wrapCount :: nat

text \<open>
  The object state. \<open>readPos\<close> and \<open>writePos\<close> are the offsets of \<^verbatim>\<open>m_readFd\<close> and
  \<^verbatim>\<open>m_writeFd\<close> (what \<^verbatim>\<open>lseek(fd, 0, SEEK_CUR)\<close> returns). \<open>storage\<close> is the content
  of the ring-buffer file: the packet persisted at an offset, if any; bytes are not
  modelled, so a packet written over part of an older one leaves the older entry in
  place. \<open>m_queueStartTime\<close> is the millisecond count, 0 when unset.

  Two fields are bookkeeping of the model and not members of the class:
  \<open>readWraps\<close> counts the wraps of the read cursor (the class counts only those of
  the write cursor, in \<^verbatim>\<open>m_wrapCount\<close>), and \<open>deleted\<close> lists the packets released
  with \<^verbatim>\<open>delete\<close>.
\<close>

record LiveQueue =
  m_bufferSize :: int
  readPos :: int
  writePos :: int
  storage :: "int \<Rightarrow> MsgPacket option"
  m_wrapped :: bool
  m_hasWrapped :: bool
  m_wrapCount :: nat
  m_pause :: bool
  m_indexList :: "IndexEntry list"
  m_queueStartTime :: int
  m_writerQueue :: "PacketData list"
  readWraps :: nat
  deleted :: "MsgPacket list"

text \<open>
  Modelled from the spec: the initial value of \<open>m_queueStartTime\<close>. The constructor
  and \<^verbatim>\<open>cleanup\<close> do not assign it; its initial value comes from the declaration in
  livequeue.h, which is not part of the sources at hand. The specification has the
  start time unset, reading as zero, before the first write, and \<^verbatim>\<open>write\<close> tests
  \<^verbatim>\<open>m_queueStartTime.count() == 0\<close> for that. The same holds for the empty index
  and submission queue, which are default-constructed. The rest is what the
  constructor and \<^verbatim>\<open>cleanup\<close> assign: an empty, truncated file, both cursors at 0,
  no wrap, no wrap counted, not paused.
\<close>

definition init :: "int \<Rightarrow> LiveQueue" where
  "init bufferSize =
     \<lparr> m_bufferSize = bufferSize, readPos = 0, writePos = 0, storage = (\<lambda>_. None),
       m_wrapped = False, m_hasWrapped = False, m_wrapCount = 0, m_pause = False,
       m_indexList = [], m_queueStartTime = 0, m_writerQueue = [],
       readWraps = 0, deleted = [] \<rparr>"

subsection \<open>Reading\<close>

text \<open>
  Modelled from the spec: \<^verbatim>\<open>MsgPacket::read(m_readFd, 1000)\<close> is not part of the
  sources at hand. It decodes the packet at the read cursor and advances the cursor by
  the packet's length; when there is none it returns \<^verbatim>\<open>NULL\<close> and, packets being read
  atomically, leaves the cursor where it was.
\<close>

definition MsgPacket_read :: "LiveQueue \<Rightarrow> MsgPacket option \<times> LiveQueue" where
  "MsgPacket_read s =
     (case storage s (readPos s) of
        None \<Rightarrow> (None, s)
      | Some p \<Rightarrow> (Some p, s\<lparr>readPos := readPos s + int (packetLength p)\<rparr>))"

definition internalRead :: "LiveQueue \<Rightarrow> MsgPacket option \<times> LiveQueue" where
  "internalRead s =
     (let writePosition = writePos s;
          s1 = (if readPos s \<ge> m_bufferSize s
                then s\<lparr>readPos := 0, m_wrapped := \<not> m_wrapped s,
                       readWraps := Suc (readWraps s)\<rparr>
                else s);
          readPosition = readPos s1
      in if readPosition \<ge> writePosition \<and> \<not> m_wrapped s1 then (None, s1)
         else MsgPacket_read s1)"

text \<open>
  The loop of \<^verbatim>\<open>seekNextKeyFrame\<close> over the iterators \<^verbatim>\<open>i\<close> and \<^verbatim>\<open>j = i + 1\<close>. The
  result is the offset given to the final \<^verbatim>\<open>lseek\<close>, or \<open>None\<close> for the \<^verbatim>\<open>return\<close>
  taken when \<^verbatim>\<open>j\<close> reaches the end.
\<close>

fun seekNextKeyFrame_loop :: "int \<Rightarrow> IndexEntry list \<Rightarrow> int option" where
  "seekNextKeyFrame_loop readPosition [] = Some readPosition"
| "seekNextKeyFrame_loop readPosition [i] = None"
| "seekNextKeyFrame_loop readPosition (i # j # rest) =
     (if filePosition i < readPosition \<and> readPosition \<le> filePosition j
      then Some (filePosition j)
      else seekNextKeyFrame_loop readPosition (j # rest))"

definition seekNextKeyFrame :: "LiveQueue \<Rightarrow> LiveQueue" where
  "seekNextKeyFrame s =
     (case seekNextKeyFrame_loop (readPos s) (m_indexList s) of
        None \<Rightarrow> s
      | Some readPosition \<Rightarrow> s\<lparr>readPos := readPosition\<rparr>)"

definition read :: "LiveQueue \<Rightarrow> bool \<Rightarrow> MsgPacket option \<times> LiveQueue" where
  "read s keyFrameMode =
     (if m_pause s then (None, s)
      else internalRead (if keyFrameMode then seekNextKeyFrame s else s))"

definition isPaused :: "LiveQueue \<Rightarrow> bool" where
  "isPaused s = m_pause s"

definition pause :: "LiveQueue \<Rightarrow> bool \<Rightarrow> bool \<times> LiveQueue" where
  "pause s on = (if m_pause s = on then (False, s) else (True, s\<lparr>m_pause := on\<rparr>))"

subsection \<open>The submission queue\<close>

definition queue :: "LiveQueue \<Rightarrow> MsgPacket \<Rightarrow> Content \<Rightarrow> int \<Rightarrow> LiveQueue" where
  "queue s p content pts' =
     (if length (m_writerQueue s) \<ge> 400 then s\<lparr>deleted := deleted s @ [p]\<rparr>
      else s\<lparr>m_writerQueue := m_writerQueue s @ [PacketData p content pts']\<rparr>)"

subsection \<open>Writing\<close>

definition trim :: "LiveQueue \<Rightarrow> int \<Rightarrow> LiveQueue" where
  "trim s position =
     (if \<not> m_hasWrapped s \<or> m_indexList s = [] then s
      else
        let p = hd (m_indexList s);
            s1 = (if filePosition p < position \<and> wrapCount p < m_wrapCount s
                  then s\<lparr>m_indexList := tl (m_indexList s)\<rparr> else s)
        in if m_indexList s1 \<noteq> []
           then s1\<lparr>m_queueStartTime := wallclockTime (hd (m_indexList s1))\<rparr>
           else s1)"

text \<open>
  The loop \<^verbatim>\<open>while(packetEndPosition >= readPosition && m_wrapped)\<close> of \<^verbatim>\<open>write\<close>.
  \<^verbatim>\<open>readPosition\<close> is the local variable read from the descriptor before the loop; the
  loop does not assign it. The result is \<open>(False, s)\<close> when the body leaves \<^verbatim>\<open>write\<close>
  through \<^verbatim>\<open>return NULL\<close>, \<open>(True, s)\<close> when the loop ends, and \<open>None\<close> when it runs
  forever.
\<close>

partial_function (option) write_loop :: "int \<Rightarrow> int \<Rightarrow> LiveQueue \<Rightarrow> (bool \<times> LiveQueue) option" where
  "write_loop packetEndPosition readPosition s =
     (if packetEndPosition \<ge> readPosition \<and> m_wrapped s
      then (case internalRead s of
              (None, s1) \<Rightarrow> Some (False, s1)
            | (Some skipped, s1) \<Rightarrow> write_loop packetEndPosition readPosition s1)
      else Some (True, s))"

declare write_loop.simps [code]

text \<open>
  Modelled from the spec: \<^verbatim>\<open>MsgPacket::write(m_writeFd, 1000)\<close> is not part of the
  sources at hand. A packet is written atomically: on success it is stored at the
  write cursor, which advances by the packet's length; on failure nothing changes.
  Whether it succeeds is the argument \<open>ok\<close>.
\<close>

definition MsgPacket_write :: "MsgPacket \<Rightarrow> bool \<Rightarrow> LiveQueue \<Rightarrow> bool \<times> LiveQueue" where
  "MsgPacket_write p ok s =
     (if ok
      then (True, s\<lparr>storage := (storage s)(writePos s := Some p),
                     writePos := writePos s + int (packetLength p)\<rparr>)
      else (False, s))"

text \<open>
  \<^verbatim>\<open>write\<close>. \<open>timeStamp\<close> is the value of \<^verbatim>\<open>roboTV::currentTimeMillis()\<close>. The first
  component of the result is the returned \<^verbatim>\<open>bool\<close>; \<^verbatim>\<open>return NULL\<close> is \<open>False\<close> and
  skips the \<^verbatim>\<open>delete p\<close> at the end.
\<close>

definition "write" :: "LiveQueue \<Rightarrow> PacketData \<Rightarrow> int \<Rightarrow> bool \<Rightarrow> (bool \<times> LiveQueue) option" where
  "write s data timeStamp ok =
     (let p = data_p data;
          s1 = (if m_queueStartTime s = 0 then s\<lparr>m_queueStartTime := timeStamp\<rparr> else s);
          readPosition = readPos s1;
          s2 = (if writePos s1 \<ge> m_bufferSize s1
                then s1\<lparr>writePos := 0, m_wrapped := \<not> m_wrapped s1, m_hasWrapped := True,
                        m_wrapCount := Suc (m_wrapCount s1)\<rparr>
                else s1);
          writePosition = writePos s2;
          packetEndPosition = writePosition + int (packetLength p)
      in case write_loop packetEndPosition readPosition s2 of
           None \<Rightarrow> None
         | Some (False, s3) \<Rightarrow> Some (False, s3)
         | Some (True, s3) \<Rightarrow>
             (let s4 = trim s3 packetEndPosition;
                  s5 = (if isIFrame p \<and> data_content data = scVIDEO
                        then s4\<lparr>m_indexList := m_indexList s4 @
                               [\<lparr>filePosition = writePosition, wallclockTime = timeStamp,
                                 pts = data_pts data, wrapCount = m_wrapCount s4\<rparr>]\<rparr>
                        else s4);
                  (success, s6) = MsgPacket_write p ok s5
              in Some (success, s6\<lparr>deleted := deleted s6 @ [p]\<rparr>)))"

text \<open>One turn of the writer thread: take the front of the submission queue and write it.\<close>

definition writer_step :: "LiveQueue \<Rightarrow> int \<Rightarrow> bool \<Rightarrow> (bool \<times> LiveQueue) option" where
  "writer_step s timeStamp ok =
     (case m_writerQueue s of
        [] \<Rightarrow> Some (True, s)
      | data # rest \<Rightarrow> write (s\<lparr>m_writerQueue := rest\<rparr>) data timeStamp ok)"

subsection \<open>Seeking\<close>

text \<open>The scan \<^verbatim>\<open>while(s != e)\<close> of \<^verbatim>\<open>seek\<close> over the reversed index.\<close>

fun seek_scan :: "int \<Rightarrow> IndexEntry list \<Rightarrow> IndexEntry option" where
  "seek_scan wallclockPositionMs [] = None"
| "seek_scan wallclockPositionMs (e # es) =
     (if wallclockTime e \<le> wallclockPositionMs then Some e
      else seek_scan wallclockPositionMs es)"

definition seek_to :: "LiveQueue \<Rightarrow> IndexEntry \<Rightarrow> int \<times> LiveQueue" where
  "seek_to s e = (pts e, s\<lparr>readPos := filePosition e\<rparr>)"

definition seek :: "LiveQueue \<Rightarrow> int \<Rightarrow> int \<times> LiveQueue" where
  "seek s wallclockPositionMs =
     (case m_indexList s of
        [] \<Rightarrow> (0, s)
      | h # rest \<Rightarrow>
          (let newest = last (h # rest) in
           if wallclockPositionMs \<ge> wallclockTime newest then seek_to s newest
           else if wallclockPositionMs \<le> wallclockTime h then seek_to s h
           else (case seek_scan wallclockPositionMs (rev (h # rest)) of
                   Some e \<Rightarrow> seek_to s e
                 | None \<Rightarrow> (0, s))))"

definition getTimeshiftStartPosition :: "LiveQueue \<Rightarrow> int" where
  "getTimeshiftStartPosition s = m_queueStartTime s"

subsection \<open>Notions used by the properties\<close>

text \<open>
  \<open>same_store s s'\<close>: \<open>s'\<close> differs from \<open>s\<close> at most in the read cursor, the
  \<open>m_wrapped\<close> flag and the count of read wraps: what \<^verbatim>\<open>internalRead\<close> may touch.
\<close>

definition same_store :: "LiveQueue \<Rightarrow> LiveQueue \<Rightarrow> bool" where
  "same_store s s' =
     (m_bufferSize s' = m_bufferSize s \<and> writePos s' = writePos s \<and> storage s' = storage s \<and>
      m_hasWrapped s' = m_hasWrapped s \<and> m_wrapCount s' = m_wrapCount s \<and>
      m_pause s' = m_pause s \<and> m_indexList s' = m_indexList s \<and>
      m_queueStartTime s' = m_queueStartTime s \<and> m_writerQueue s' = m_writerQueue s \<and>
      deleted s' = deleted s)"

text \<open>Every stored packet has a positive encoded length (a packet has a header).\<close>

definition positive_lengths :: "LiveQueue \<Rightarrow> bool" where
  "positive_lengths s = (\<forall>off p. storage s off = Some p \<longrightarrow> 0 < packetLength p)"

text \<open>
  The first part of \<^verbatim>\<open>write\<close>, up to the loop: the start time is set when it is
  unset, and a write cursor at or beyond the buffer size wraps to 0.
\<close>

definition write_wrap :: "LiveQueue \<Rightarrow> int \<Rightarrow> LiveQueue" where
  "write_wrap s timeStamp =
     (let s1 = (if m_queueStartTime s = 0 then s\<lparr>m_queueStartTime := timeStamp\<rparr> else s)
      in if writePos s1 \<ge> m_bufferSize s1
         then s1\<lparr>writePos := 0, m_wrapped := \<not> m_wrapped s1, m_hasWrapped := True,
                 m_wrapCount := Suc (m_wrapCount s1)\<rparr>
         else s1)"

text \<open>
  The last part of \<^verbatim>\<open>write\<close>, after the loop: pruning, the index entry of a video
  keyframe, the write of the packet and its release.
\<close>

definition write_persist :: "LiveQueue \<Rightarrow> PacketData \<Rightarrow> int \<Rightarrow> bool \<Rightarrow> bool \<times> LiveQueue" where
  "write_persist s3 data timeStamp ok =
     (let p = data_p data;
          s4 = trim s3 (writePos s3 + int (packetLength p));
          s5 = (if isIFrame p \<and> data_content data = scVIDEO
                then s4\<lparr>m_indexList := m_indexList s4 @
                       [\<lparr>filePosition = writePos s3, wallclockTime = timeStamp,
                         pts = data_pts data, wrapCount = m_wrapCount s4\<rparr>]\<rparr>
                else s4);
          (success, s6) = MsgPacket_write p ok s5
      in (success, s6\<lparr>deleted := deleted s6 @ [p]\<rparr>))"

text \<open>
  The first adjacent pair \<open>(i, j)\<close> of the index, front to back, with
  \<open>i.offset < readOffset \<le> j.offset\<close>, as the specification words it.
\<close>

definition next_boundary :: "int \<Rightarrow> IndexEntry list \<Rightarrow> (IndexEntry \<times> IndexEntry) option" where
  "next_boundary readOffset idx =
     List.find (\<lambda>(i, j). filePosition i < readOffset \<and> readOffset \<le> filePosition j)
       (zip idx (tl idx))"

text \<open>A producer that calls \<^verbatim>\<open>queue\<close> for each entry of a list while no writer runs.\<close>

fun queue_all :: "LiveQueue \<Rightarrow> PacketData list \<Rightarrow> LiveQueue" where
  "queue_all s [] = s"
| "queue_all s (d # ds) = queue_all (queue s (data_p d) (data_content d) (data_pts d)) ds"

text \<open>
  The states an object can be in: constructed with some buffer size, then any
  sequence of \<^verbatim>\<open>queue\<close>, turns of the writer thread, \<^verbatim>\<open>read\<close>, \<^verbatim>\<open>seek\<close> and
  \<^verbatim>\<open>pause\<close>, each under the lock.
\<close>

inductive reachable :: "LiveQueue \<Rightarrow> bool" where
  r_init: "reachable (init bufferSize)"
| r_queue: "reachable s \<Longrightarrow> reachable (queue s p content pts')"
| r_writer: "reachable s \<Longrightarrow> writer_step s timeStamp ok = Some (b, s') \<Longrightarrow> reachable s'"
| r_read: "reachable s \<Longrightarrow> reachable (snd (read s keyFrameMode))"
| r_seek: "reachable s \<Longrightarrow> reachable (snd (seek s wallclockPositionMs))"
| r_pause: "reachable s \<Longrightarrow> reachable (snd (pause s on))"

subsection \<open>Example data\<close>

definition pk :: "nat \<Rightarrow> nat \<Rightarrow> MsgPacket" where
  "pk n len = \<lparr>packetLength = len, isIFrame = False, payload = n\<rparr>"

definition kf :: "nat \<Rightarrow> nat \<Rightarrow> MsgPacket" where
  "kf n len = \<lparr>packetLength = len, isIFrame = True, payload = n\<rparr>"

text \<open>Three keyframes written at 0 ms, 1000 ms and 2000 ms.\<close>

definition idx3 :: "IndexEntry list" where
  "idx3 = [\<lparr>filePosition = 0, wallclockTime = 0, pts = 100, wrapCount = 0\<rparr>,
           \<lparr>filePosition = 40, wallclockTime = 1000, pts = 200, wrapCount = 0\<rparr>,
           \<lparr>filePosition = 90, wallclockTime = 2000, pts = 300, wrapCount = 0\<rparr>]"

text \<open>
  Two keyframes of 50 bytes written within the same millisecond 5 into a buffer of
  1000 bytes.
\<close>

definition same_ms_state :: LiveQueue where
  "same_ms_state =
     \<lparr> m_bufferSize = 1000, readPos = 0, writePos = 100,
       storage = ((\<lambda>_. None)(0 := Some (kf 1 50)))(50 := Some (kf 2 50)),
       m_wrapped = False, m_hasWrapped = False, m_wrapCount = 0, m_pause = False,
       m_indexList = [\<lparr>filePosition = 0, wallclockTime = 5, pts = 100, wrapCount = 0\<rparr>,
                      \<lparr>filePosition = 50, wallclockTime = 5, pts = 200, wrapCount = 0\<rparr>],
       m_queueStartTime = 5, m_writerQueue = [], readWraps = 0,
       deleted = [kf 1 50, kf 2 50] \<rparr>"

text \<open>A run of writes, each of which persists its packet when it gets that far.\<close>

fun write_seq :: "LiveQueue \<Rightarrow> (PacketData \<times> int) list \<Rightarrow> LiveQueue option" where
  "write_seq s [] = Some s"
| "write_seq s ((d, ts) # ds) =
     (case write s d ts True of None \<Rightarrow> None | Some (b, s') \<Rightarrow> write_seq s' ds)"

text \<open>Four packets of 30 bytes written into a fresh buffer of 100 bytes.\<close>

definition overshoot_state :: LiveQueue where
  "overshoot_state =
     (init 100)\<lparr>writePos := 120,
       storage := ((((\<lambda>_. None)(0 := Some (pk 1 30)))(30 := Some (pk 2 30)))
                     (60 := Some (pk 3 30)))(90 := Some (pk 4 30)),
       m_queueStartTime := 1, deleted := [pk 1 30, pk 2 30, pk 3 30, pk 4 30]\<rparr>"

text \<open>
  The index scanned in the order of the file offsets, as the specification words the
  search for the next keyframe.
\<close>

definition next_boundary_by_offset ::
    "int \<Rightarrow> IndexEntry list \<Rightarrow> (IndexEntry \<times> IndexEntry) option" where
  "next_boundary_by_offset readOffset idx =
     next_boundary readOffset (sort_key filePosition idx)"

text \<open>
  \<open>m_wrapped\<close> is the parity of the number of wraps of both cursors together.
\<close>

definition wrap_parity :: "LiveQueue \<Rightarrow> bool" where
  "wrap_parity s = (m_wrapped s = odd (m_wrapCount s + readWraps s))"


text \<open>
  A buffer of 50 bytes after two packets of 30 bytes and two reads: the reader has
  consumed everything, both cursors are at 60, beyond the buffer size.
\<close>

definition caught_up_state :: LiveQueue where
  "caught_up_state =
     (init 50)\<lparr>readPos := 60, writePos := 60,
       storage := ((\<lambda>_. None)(0 := Some (pk 1 30)))(30 := Some (pk 2 30)),
       m_queueStartTime := 100, deleted := [pk 1 30, pk 2 30]\<rparr>"

text \<open>The state after one more read.\<close>

definition read_lap_state :: LiveQueue where
  "read_lap_state =
     (init 50)\<lparr>readPos := 30, writePos := 60,
       storage := ((\<lambda>_. None)(0 := Some (pk 1 30)))(30 := Some (pk 2 30)),
       m_wrapped := True, m_queueStartTime := 100, readWraps := 1,
       deleted := [pk 1 30, pk 2 30]\<rparr>"

text \<open>
  A buffer of 50 bytes after a packet written at 100 ms, a video keyframe written at
  200 ms and two reads.
\<close>

definition refresh_state :: LiveQueue where
  "refresh_state =
     (init 50)\<lparr>readPos := 60, writePos := 60,
       storage := ((\<lambda>_. None)(0 := Some (pk 1 30)))(30 := Some (kf 2 30)),
       m_indexList := [\<lparr>filePosition = 30, wallclockTime = 200, pts = 7, wrapCount = 0\<rparr>],
       m_queueStartTime := 100, deleted := [pk 1 30, kf 2 30]\<rparr>"

text \<open>Four packets of 10 bytes written into a fresh buffer of 40 bytes.\<close>

definition full_state :: LiveQueue where
  "full_state =
     (init 40)\<lparr>writePos := 40,
       storage := ((((\<lambda>_. None)(0 := Some (pk 1 10)))(10 := Some (pk 2 10)))
                     (20 := Some (pk 3 10)))(30 := Some (pk 4 10)),
       m_queueStartTime := 1, deleted := [pk 1 10, pk 2 10, pk 3 10, pk 4 10]\<rparr>"

text \<open>
  Then the reader has taken the first packet and the writer has wrapped and written
  a packet of 5 bytes at offset 0: the write cursor is at 5, the read cursor at 10.
\<close>

definition lapped_state :: LiveQueue where
  "lapped_state =
     full_state\<lparr>readPos := 10, writePos := 5,
       storage := (storage full_state)(0 := Some (pk 5 5)),
       m_wrapped := True, m_hasWrapped := True, m_wrapCount := 1,
       deleted := deleted full_state @ [pk 5 5]\<rparr>"

text \<open>Two video keyframes of 30 bytes written into a fresh buffer of 50 bytes.\<close>

definition filled_state :: LiveQueue where
  "filled_state =
     (init 50)\<lparr>writePos := 60,
       storage := ((\<lambda>_. None)(0 := Some (kf 1 30)))(30 := Some (kf 2 30)),
       m_indexList := [\<lparr>filePosition = 0, wallclockTime = 1, pts = 100, wrapCount = 0\<rparr>,
                       \<lparr>filePosition = 30, wallclockTime = 2, pts = 200, wrapCount = 0\<rparr>],
       m_queueStartTime := 1, deleted := [kf 1 30, kf 2 30]\<rparr>"

text \<open>
  Then two reads, a third keyframe of 20 bytes, which wraps the write cursor and
  prunes the first index entry, and one more read: the index holds the entry at
  offset 30 of generation 0 before the entry at offset 0 of generation 1.
\<close>

definition two_generation_state :: LiveQueue where
  "two_generation_state =
     (init 50)\<lparr>readPos := 20, writePos := 20,
       storage := (((\<lambda>_. None)(0 := Some (kf 1 30)))(30 := Some (kf 2 30)))
                    (0 := Some (kf 3 20)),
       m_hasWrapped := True, m_wrapCount := 1,
       m_indexList := [\<lparr>filePosition = 30, wallclockTime = 2, pts = 200, wrapCount = 0\<rparr>,
                       \<lparr>filePosition = 0, wallclockTime = 3, pts = 300, wrapCount = 1\<rparr>],
       m_queueStartTime := 2, readWraps := 1,
       deleted := [kf 1 30, kf 2 30, kf 3 20]\<rparr>"

section \<open>Properties\<close>

subsection \<open>The loop of write\<close>

lemma same_store_refl: "same_store s s"
  by (simp add: same_store_def)

lemma same_store_trans: "same_store s s1 \<Longrightarrow> same_store s1 s2 \<Longrightarrow> same_store s s2"
  by (simp add: same_store_def)

lemma internalRead_same_store: "internalRead s = (r, s') \<Longrightarrow> same_store s s'"
  by (auto simp: internalRead_def MsgPacket_read_def same_store_def Let_def
           split: if_splits option.splits)

lemma write_loop_same_store:
  assumes "write_loop pe rp s = Some y"
  shows "same_store s (snd y)"
proof (rule write_loop.raw_induct[where P = "\<lambda>pe rp s y. same_store s (snd y)", OF _ assms],
       goal_cases)
  case (1 f pe rp s y)
  note IH = 1(1) and eq = 1(2)
  show ?case
  proof (cases "rp \<le> pe \<and> m_wrapped s")
    case False
    with eq show ?thesis by (auto simp: same_store_refl)
  next
    case True
    obtain r s1 where ir: "internalRead s = (r, s1)" by (cases "internalRead s")
    have st: "same_store s s1" using ir by (rule internalRead_same_store)
    show ?thesis
    proof (cases r)
      case None
      with eq True ir st show ?thesis by auto
    next
      case (Some skipped)
      with eq True ir have "f pe rp s1 = Some y" by simp
      then have "same_store s1 (snd y)" by (rule IH)
      with st show ?thesis by (rule same_store_trans)
    qed
  qed
qed

lemma write_loop_done_aux:
  assumes "write_loop pe rp s = Some y"
  shows "fst y \<longrightarrow> \<not> (rp \<le> pe \<and> m_wrapped (snd y))"
proof (rule write_loop.raw_induct[where
         P = "\<lambda>pe rp s y. fst y \<longrightarrow> \<not> (rp \<le> pe \<and> m_wrapped (snd y))", OF _ assms],
       goal_cases)
  case (1 f pe rp s y)
  note IH = 1(1) and eq = 1(2)
  show ?case
  proof (cases "rp \<le> pe \<and> m_wrapped s")
    case False
    with eq have "y = (True, s)" by auto
    with False show ?thesis by simp
  next
    case True
    obtain r s1 where ir: "internalRead s = (r, s1)" by (cases "internalRead s")
    show ?thesis
    proof (cases r)
      case None
      with eq True ir have "y = (False, s1)" by auto
      then show ?thesis by simp
    next
      case (Some skipped)
      with eq True ir have "f pe rp s1 = Some y" by simp
      then show ?thesis by (rule IH)
    qed
  qed
qed

lemma write_loop_done:
  "write_loop pe rp s = Some (True, s') \<Longrightarrow> \<not> (rp \<le> pe \<and> m_wrapped s')"
  using write_loop_done_aux[of pe rp s "(True, s')"] by simp

lemma write_loop_stop:
  "\<not> (rp \<le> pe \<and> m_wrapped s) \<Longrightarrow> write_loop pe rp s = Some (True, s)"
  by (subst write_loop.simps) auto

lemma write_loop_step:
  "rp \<le> pe \<Longrightarrow> m_wrapped s \<Longrightarrow>
   write_loop pe rp s =
     (if fst (internalRead s) = None then Some (False, snd (internalRead s))
      else write_loop pe rp (snd (internalRead s)))"
  by (subst write_loop.simps) (auto split: prod.splits option.splits)

lemma internalRead_wrap:
  "m_bufferSize s \<le> readPos s \<Longrightarrow> m_wrapped s \<Longrightarrow> internalRead s = (r, s1) \<Longrightarrow>
   \<not> m_wrapped s1"
  by (auto simp: internalRead_def MsgPacket_read_def Let_def split: if_splits option.splits)

lemma internalRead_advance:
  "readPos s < m_bufferSize s \<Longrightarrow> m_wrapped s \<Longrightarrow> positive_lengths s \<Longrightarrow>
   internalRead s = (Some p, s1) \<Longrightarrow>
   readPos s < readPos s1 \<and> m_wrapped s1 \<and> positive_lengths s1 \<and>
   m_bufferSize s1 = m_bufferSize s"
  by (auto simp: internalRead_def MsgPacket_read_def Let_def positive_lengths_def
           split: if_splits option.splits)

text \<open>
  The loop returns when every stored packet has a positive length: the read cursor
  then moves forward with each skipped packet until it wraps, which clears
  \<open>m_wrapped\<close>.
\<close>

lemma write_loop_returns:
  "positive_lengths s \<Longrightarrow> \<exists>r. write_loop pe rp s = Some r"
proof (induction "nat (m_bufferSize s - readPos s)" arbitrary: s rule: less_induct)
  case less
  show ?case
  proof (cases "rp \<le> pe \<and> m_wrapped s")
    case False
    then show ?thesis by (auto simp: write_loop_stop)
  next
    case True
    obtain r s1 where ir: "internalRead s = (r, s1)" by (cases "internalRead s")
    show ?thesis
    proof (cases r)
      case None
      with True ir show ?thesis by (auto simp: write_loop_step)
    next
      case (Some skipped)
      show ?thesis
      proof (cases "readPos s < m_bufferSize s")
        case False
        with True have "\<not> m_wrapped s1" using internalRead_wrap[OF _ _ ir] by simp
        then have "write_loop pe rp s1 = Some (True, s1)" by (simp add: write_loop_stop)
        with True ir Some show ?thesis by (auto simp: write_loop_step)
      next
        case rl: True
        have adv: "readPos s < readPos s1 \<and> m_wrapped s1 \<and> positive_lengths s1 \<and>
            m_bufferSize s1 = m_bufferSize s"
          using internalRead_advance[OF rl _ less.prems] True ir Some by auto
        then have "nat (m_bufferSize s1 - readPos s1) < nat (m_bufferSize s - readPos s)"
          using rl by simp
        then obtain r' where "write_loop pe rp s1 = Some r'"
          using less.hyps adv by blast
        with True ir Some show ?thesis by (auto simp: write_loop_step)
      qed
    qed
  qed
qed

lemma write_unfold:
  "write s data timeStamp ok =
     (case write_loop (writePos (write_wrap s timeStamp) + int (packetLength (data_p data)))
             (readPos s) (write_wrap s timeStamp) of
        None \<Rightarrow> None
      | Some (False, s3) \<Rightarrow> Some (False, s3)
      | Some (True, s3) \<Rightarrow> Some (write_persist s3 data timeStamp ok))"
proof -
  define s2 where "s2 = write_wrap s timeStamp"
  define pe where "pe = writePos s2 + int (packetLength (data_p data))"
  define finish where "finish = (\<lambda>s3.
      let p = data_p data;
          s4 = trim s3 pe;
          s5 = (if isIFrame p \<and> data_content data = scVIDEO
                then s4\<lparr>m_indexList := m_indexList s4 @
                       [\<lparr>filePosition = writePos s2, wallclockTime = timeStamp,
                         pts = data_pts data, wrapCount = m_wrapCount s4\<rparr>]\<rparr>
                else s4);
          (success, s6) = MsgPacket_write p ok s5
      in Some (success, s6\<lparr>deleted := deleted s6 @ [p]\<rparr>))"
  have rp: "readPos (if m_queueStartTime s = 0 then s\<lparr>m_queueStartTime := timeStamp\<rparr> else s)
      = readPos s"
    by simp
  have w: "write s data timeStamp ok =
      (case write_loop pe (readPos s) s2 of
         None \<Rightarrow> None
       | Some (False, s3) \<Rightarrow> Some (False, s3)
       | Some (True, s3) \<Rightarrow> finish s3)"
    unfolding write_def finish_def pe_def s2_def write_wrap_def Let_def rp ..
  have fin: "finish s3 = Some (write_persist s3 data timeStamp ok)"
    if "write_loop pe (readPos s) s2 = Some (True, s3)" for s3
  proof -
    have "same_store s2 s3" using write_loop_same_store[OF that] by simp
    then have "writePos s3 = writePos s2" by (simp add: same_store_def)
    then show ?thesis
      by (simp add: finish_def write_persist_def pe_def Let_def split: prod.splits)
  qed
  show ?thesis
    unfolding w s2_def[symmetric] pe_def[symmetric]
    using fin by (auto split: option.splits bool.splits)
qed

text \<open>\<^verbatim>\<open>write\<close> returns when every stored packet has a positive length.\<close>

lemma write_returns:
  assumes "positive_lengths s"
  shows "\<exists>r. write s data timeStamp ok = Some r"
proof -
  have "positive_lengths (write_wrap s timeStamp)"
    using assms by (simp add: positive_lengths_def write_wrap_def Let_def)
  then obtain r where
    "write_loop (writePos (write_wrap s timeStamp) + int (packetLength (data_p data)))
       (readPos s) (write_wrap s timeStamp) = Some r"
    using write_loop_returns by blast
  then show ?thesis
    by (cases r; cases "fst r") (auto simp: write_unfold)
qed

text \<open>The rules that evaluate a call on a concrete state.\<close>

lemmas eval_defs =
  write_unfold write_wrap_def write_persist_def write_loop_stop write_loop_step trim_def
  MsgPacket_write_def internalRead_def MsgPacket_read_def read_def seekNextKeyFrame_def
  writer_step_def queue_def Let_def pk_def kf_def

subsection \<open>Seeking by wall-clock time\<close>

lemma seek_scan_find: "seek_scan t es = List.find (\<lambda>e. wallclockTime e \<le> t) es"
  by (induction es) auto

lemma seek_scan_Some:
  "seek_scan t es = Some e \<Longrightarrow>
   \<exists>pre post. es = pre @ e # post \<and> wallclockTime e \<le> t \<and>
     (\<forall>n \<in> set pre. t < wallclockTime n)"
proof (induction es)
  case Nil
  then show ?case by simp
next
  case (Cons a es)
  show ?case
  proof (cases "wallclockTime a \<le> t")
    case True
    with Cons.prems have "a = e" by simp
    with True have "a # es = [] @ e # es \<and> wallclockTime e \<le> t \<and>
        (\<forall>n \<in> set []. t < wallclockTime n)"
      by simp
    then show ?thesis by blast
  next
    case False
    with Cons.prems have "seek_scan t es = Some e" by simp
    then obtain pre post where d: "es = pre @ e # post" "wallclockTime e \<le> t"
        "\<forall>n \<in> set pre. t < wallclockTime n"
      using Cons.IH by blast
    with False have "a # es = (a # pre) @ e # post \<and> wallclockTime e \<le> t \<and>
        (\<forall>n \<in> set (a # pre). t < wallclockTime n)"
      by simp
    then show ?thesis by blast
  qed
qed

lemma seek_scan_None: "seek_scan t es = None \<Longrightarrow> \<forall>e \<in> set es. t < wallclockTime e"
  by (induction es) (auto split: if_splits)

text \<open>The scan cannot miss when the oldest entry lies before the target.\<close>

lemma seek_scan_finds_oldest:
  assumes "idx \<noteq> []" "wallclockTime (hd idx) < t"
  shows "\<exists>e. seek_scan t (rev idx) = Some e"
proof (cases "seek_scan t (rev idx)")
  case None
  then have "\<forall>e \<in> set (rev idx). t < wallclockTime e" by (rule seek_scan_None)
  moreover have "hd idx \<in> set (rev idx)" using assms(1) by simp
  ultimately have "t < wallclockTime (hd idx)" by blast
  with assms(2) show ?thesis by simp
next
  case (Some e)
  then show ?thesis by blast
qed

lemma seek_unfold:
  "m_indexList s \<noteq> [] \<Longrightarrow>
   seek s t =
     (if wallclockTime (last (m_indexList s)) \<le> t then seek_to s (last (m_indexList s))
      else if t \<le> wallclockTime (hd (m_indexList s)) then seek_to s (hd (m_indexList s))
      else (case seek_scan t (rev (m_indexList s)) of
              Some e \<Rightarrow> seek_to s e | None \<Rightarrow> (0, s)))"
  by (cases "m_indexList s") (simp_all add: seek_def Let_def)

text \<open>
  C3. With a non-empty index and a target strictly between the wall-clock times of
  the oldest and the newest entry, \<^verbatim>\<open>seek\<close> returns the presentation time stamp of
  the first entry, scanning from newest to oldest, whose wall-clock time is at most the
  target, and puts the read cursor at that entry's file offset. The index splits as
  \<open>older @ e # newer\<close>: the entry found is not after the target and every newer entry
  is after it.
\<close>

theorem seek_between_predecessor:
  assumes "m_indexList s \<noteq> []"
    and "wallclockTime (hd (m_indexList s)) < t"
    and "t < wallclockTime (last (m_indexList s))"
  shows "\<exists>older e newer.
           m_indexList s = older @ e # newer \<and>
           wallclockTime e \<le> t \<and>
           (\<forall>n \<in> set newer. t < wallclockTime n) \<and>
           List.find (\<lambda>e. wallclockTime e \<le> t) (rev (m_indexList s)) = Some e \<and>
           seek s t = (pts e, s\<lparr>readPos := filePosition e\<rparr>)"
proof -
  obtain e where sc: "seek_scan t (rev (m_indexList s)) = Some e"
    using seek_scan_finds_oldest[OF assms(1,2)] by blast
  then obtain pre post where d: "rev (m_indexList s) = pre @ e # post"
      "wallclockTime e \<le> t" "\<forall>n \<in> set pre. t < wallclockTime n"
    using seek_scan_Some by blast
  from d(1) have "rev (rev (m_indexList s)) = rev (pre @ e # post)" by simp
  then have idx: "m_indexList s = rev post @ e # rev pre" by simp
  have res: "seek s t = (pts e, s\<lparr>readPos := filePosition e\<rparr>)"
    using assms sc by (simp add: seek_unfold seek_to_def)
  have fnd: "List.find (\<lambda>e. wallclockTime e \<le> t) (rev (m_indexList s)) = Some e"
    using sc by (simp add: seek_scan_find)
  have newer: "\<forall>n \<in> set (rev pre). t < wallclockTime n" using d(3) by simp
  show ?thesis
    using idx d(2) newer fnd res by blast
qed

theorem seek_between_predecessor_witness:
  "m_indexList ((init 1000)\<lparr>m_indexList := idx3\<rparr>) \<noteq> [] \<and>
   wallclockTime (hd idx3) < 1500 \<and> 1500 < wallclockTime (last idx3) \<and>
   seek ((init 1000)\<lparr>m_indexList := idx3\<rparr>) 1500 =
     (200, (init 1000)\<lparr>m_indexList := idx3, readPos := 40\<rparr>)"
  using seek_between_predecessor[of "(init 1000)\<lparr>m_indexList := idx3\<rparr>" 1500]
  by (auto simp: idx3_def init_def)

text \<open>
  C4, as the code has it. With a non-empty index: a target at or after the newest
  entry's wall-clock time puts the read cursor at the newest entry's file offset and
  returns its presentation time stamp; a target before the newest entry's wall-clock
  time and at or before the oldest entry's puts it at the oldest entry's offset and
  returns the oldest entry's time stamp. The test against the newest entry comes first.
\<close>

theorem seek_clamps:
  assumes "m_indexList s \<noteq> []"
  shows "(wallclockTime (last (m_indexList s)) \<le> t \<longrightarrow>
            seek s t = (pts (last (m_indexList s)),
                        s\<lparr>readPos := filePosition (last (m_indexList s))\<rparr>)) \<and>
         (t < wallclockTime (last (m_indexList s)) \<and>
          t \<le> wallclockTime (hd (m_indexList s)) \<longrightarrow>
            seek s t = (pts (hd (m_indexList s)),
                        s\<lparr>readPos := filePosition (hd (m_indexList s))\<rparr>))"
  using assms by (simp add: seek_unfold seek_to_def)

theorem seek_clamps_witness:
  "m_indexList ((init 1000)\<lparr>m_indexList := idx3\<rparr>) \<noteq> [] \<and>
   wallclockTime (last idx3) \<le> 2500 \<and>
   seek ((init 1000)\<lparr>m_indexList := idx3\<rparr>) 2500 =
     (300, (init 1000)\<lparr>m_indexList := idx3, readPos := 90\<rparr>) \<and>
   - 100 < wallclockTime (last idx3) \<and> - 100 \<le> wallclockTime (hd idx3) \<and>
   seek ((init 1000)\<lparr>m_indexList := idx3\<rparr>) (- 100) =
     (100, (init 1000)\<lparr>m_indexList := idx3, readPos := 0\<rparr>)"
  using seek_clamps[of "(init 1000)\<lparr>m_indexList := idx3\<rparr>" 2500]
        seek_clamps[of "(init 1000)\<lparr>m_indexList := idx3\<rparr>" "- 100"]
  by (simp add: idx3_def init_def)

text \<open>
  The state \<open>same_ms_state\<close> is what two writes of video keyframes within the same
  millisecond leave behind.
\<close>

lemma same_ms_state_run:
  "Option.bind (write (init 1000) (PacketData (kf 1 50) scVIDEO 100) 5 True)
     (\<lambda>(b, s). write s (PacketData (kf 2 50) scVIDEO 200) 5 True) = Some (True, same_ms_state)"
  by (simp add: eval_defs init_def same_ms_state_def)

text \<open>
  C4 as stated fails there: the target 5 is at the oldest entry's wall-clock time, and
  \<^verbatim>\<open>seek\<close> goes to the newest entry (offset 50, time stamp 200), not to the oldest
  (offset 0, time stamp 100).
\<close>

theorem seek_clamp_oldest_counterexample:
  "m_indexList same_ms_state \<noteq> [] \<and>
   5 \<le> wallclockTime (hd (m_indexList same_ms_state)) \<and>
   pts (hd (m_indexList same_ms_state)) = 100 \<and>
   filePosition (hd (m_indexList same_ms_state)) = 0 \<and>
   seek same_ms_state 5 = (200, same_ms_state\<lparr>readPos := 50\<rparr>)"
  by (simp add: same_ms_state_def seek_def seek_to_def)

text \<open>
  C10. When \<^verbatim>\<open>seek\<close> fails, because the index is empty or because the scan, once
  neither clamp applies, finds no entry at or before the target, it returns 0 and the
  state is unchanged. (The second exit is in the code but is never taken: by
  \<open>seek_scan_finds_oldest\<close> the scan finds the oldest entry at the latest.)
\<close>

theorem seek_failure_atomic:
  assumes "m_indexList s = [] \<or>
           (t < wallclockTime (last (m_indexList s)) \<and>
            wallclockTime (hd (m_indexList s)) < t \<and>
            seek_scan t (rev (m_indexList s)) = None)"
  shows "seek s t = (0, s)"
proof (cases "m_indexList s = []")
  case True
  then show ?thesis by (simp add: seek_def)
next
  case False
  with assms show ?thesis by (simp add: seek_unfold)
qed

theorem seek_failure_atomic_witness:
  "m_indexList (init 1000) = [] \<and> seek (init 1000) 1500 = (0, init 1000)"
  using seek_failure_atomic[of "init 1000" 1500] by (simp add: init_def)

text \<open>Whatever the outcome, \<^verbatim>\<open>seek\<close> changes at most the read cursor.\<close>

lemma seek_frame:
  "same_store s (snd (seek s t)) \<and> m_wrapped (snd (seek s t)) = m_wrapped s \<and>
   readWraps (snd (seek s t)) = readWraps s"
proof (cases "m_indexList s = []")
  case True
  then show ?thesis by (simp add: seek_def same_store_def)
next
  case False
  then show ?thesis
    by (simp add: seek_unfold seek_to_def same_store_def split: option.splits)
qed

subsection \<open>The next keyframe\<close>

lemma seekNextKeyFrame_loop_boundary:
  "seekNextKeyFrame_loop r idx =
     (case next_boundary r idx of
        Some (i, j) \<Rightarrow> Some (filePosition j)
      | None \<Rightarrow> (if idx = [] then Some r else None))"
  by (induction r idx rule: seekNextKeyFrame_loop.induct) (simp_all add: next_boundary_def)

text \<open>
  C5, as the code has it. \<^verbatim>\<open>seekNextKeyFrame\<close> goes through the index front to
  back, in the order of insertion (which is the order of the file offsets within one
  wrap generation), and moves the read cursor to \<open>j.offset\<close> for the first adjacent
  pair \<open>(i, j)\<close> with \<open>i.offset < readOffset \<le> j.offset\<close>; with no such pair the state
  is unchanged, and so it is for an index of at most one entry.
\<close>

theorem seekNextKeyFrame_first_boundary:
  "seekNextKeyFrame s =
     (case next_boundary (readPos s) (m_indexList s) of
        Some (i, j) \<Rightarrow> s\<lparr>readPos := filePosition j\<rparr>
      | None \<Rightarrow> s) \<and>
   (length (m_indexList s) \<le> 1 \<longrightarrow> seekNextKeyFrame s = s)"
proof -
  have "seekNextKeyFrame s = s" if "length (m_indexList s) \<le> 1"
    using that by (cases "m_indexList s"; cases "tl (m_indexList s)")
      (auto simp: seekNextKeyFrame_def)
  then show ?thesis
    by (simp add: seekNextKeyFrame_def seekNextKeyFrame_loop_boundary split: option.splits)
qed

theorem seekNextKeyFrame_first_boundary_witness:
  "seekNextKeyFrame ((init 1000)\<lparr>m_indexList := idx3, readPos := 50\<rparr>) =
     (init 1000)\<lparr>m_indexList := idx3, readPos := 90\<rparr> \<and>
   seekNextKeyFrame ((init 1000)\<lparr>m_indexList := idx3, readPos := 95\<rparr>) =
     (init 1000)\<lparr>m_indexList := idx3, readPos := 95\<rparr> \<and>
   seekNextKeyFrame ((init 1000)\<lparr>readPos := 50\<rparr>) = (init 1000)\<lparr>readPos := 50\<rparr>"
  using seekNextKeyFrame_first_boundary[of "(init 1000)\<lparr>m_indexList := idx3, readPos := 50\<rparr>"]
        seekNextKeyFrame_first_boundary[of "(init 1000)\<lparr>m_indexList := idx3, readPos := 95\<rparr>"]
        seekNextKeyFrame_first_boundary[of "(init 1000)\<lparr>readPos := 50\<rparr>"]
  by (simp add: idx3_def init_def next_boundary_def)

text \<open>
  The state \<open>two_generation_state\<close> comes about as described: the index is not in
  the order of the file offsets once it holds entries of two wrap generations.
\<close>

lemma two_generation_state_run:
  "write_seq (init 50)
     [(PacketData (kf 1 30) scVIDEO 100, 1), (PacketData (kf 2 30) scVIDEO 200, 2)]
     = Some filled_state \<and>
   snd (read (snd (read filled_state False)) False) = filled_state\<lparr>readPos := 60\<rparr> \<and>
   Option.bind (write (filled_state\<lparr>readPos := 60\<rparr>) (PacketData (kf 3 20) scVIDEO 300) 3 True)
     (\<lambda>(b, s). Some (snd (read s False))) = Some two_generation_state"
  by (simp add: eval_defs init_def filled_state_def two_generation_state_def)

text \<open>
  C5 as stated fails there: with the read cursor at 20, the entries in the order of
  their file offsets have the adjacent pair of offsets 0 and 30 with \<open>0 < 20 \<le> 30\<close>,
  the scan of the code meets the pair of offsets 30 and 0 only, and the cursor stays
  at 20.
\<close>

theorem seekNextKeyFrame_offset_order_counterexample:
  "readPos two_generation_state = 20 \<and>
   next_boundary_by_offset 20 (m_indexList two_generation_state) =
     Some (\<lparr>filePosition = 0, wallclockTime = 3, pts = 300, wrapCount = 1\<rparr>,
           \<lparr>filePosition = 30, wallclockTime = 2, pts = 200, wrapCount = 0\<rparr>) \<and>
   seekNextKeyFrame two_generation_state = two_generation_state"
  by (simp add: two_generation_state_def init_def next_boundary_by_offset_def next_boundary_def
      seekNextKeyFrame_def)

subsection \<open>Pausing\<close>

text \<open>
  C8. \<^verbatim>\<open>pause(on)\<close> returns true exactly when it changes the flag, so from the
  unpaused state \<^verbatim>\<open>pause(true)\<close> twice returns true and then false; and while paused
  \<^verbatim>\<open>read\<close> returns no packet and leaves the whole state, both cursors included, as
  it was.
\<close>

theorem pause_changed_read_paused:
  "pause s on = (m_pause s \<noteq> on, s\<lparr>m_pause := on\<rparr>) \<and>
   (\<not> m_pause s \<longrightarrow> fst (pause s True) \<and> \<not> fst (pause (snd (pause s True)) True)) \<and>
   (m_pause s \<longrightarrow> read s keyFrameMode = (None, s))"
  by (simp add: pause_def read_def)

theorem pause_changed_read_paused_witness:
  "\<not> m_pause (init 100) \<and>
   pause (init 100) True = (True, (init 100)\<lparr>m_pause := True\<rparr>) \<and>
   m_pause ((init 100)\<lparr>m_pause := True\<rparr>) \<and>
   pause ((init 100)\<lparr>m_pause := True\<rparr>) True = (False, (init 100)\<lparr>m_pause := True\<rparr>) \<and>
   read ((init 100)\<lparr>m_pause := True\<rparr>) False = (None, (init 100)\<lparr>m_pause := True\<rparr>)"
  using pause_changed_read_paused[of "init 100" True False]
        pause_changed_read_paused[of "(init 100)\<lparr>m_pause := True\<rparr>" True False]
  by (simp add: init_def)

subsection \<open>The write cursor and the wrap generation\<close>

lemma trim_frame:
  "writePos (trim s pos) = writePos s \<and>
   m_wrapCount (trim s pos) = m_wrapCount s \<and> m_wrapped (trim s pos) = m_wrapped s \<and>
   readWraps (trim s pos) = readWraps s \<and> readPos (trim s pos) = readPos s \<and>
   m_bufferSize (trim s pos) = m_bufferSize s \<and> storage (trim s pos) = storage s \<and>
   m_hasWrapped (trim s pos) = m_hasWrapped s \<and> m_writerQueue (trim s pos) = m_writerQueue s"
  by (simp add: trim_def Let_def)

lemma write_persist_frame:
  "fst (write_persist s3 d ts ok) = ok \<and>
   writePos (snd (write_persist s3 d ts ok)) =
     writePos s3 + (if ok then int (packetLength (data_p d)) else 0) \<and>
   m_wrapCount (snd (write_persist s3 d ts ok)) = m_wrapCount s3 \<and>
   m_wrapped (snd (write_persist s3 d ts ok)) = m_wrapped s3 \<and>
   readWraps (snd (write_persist s3 d ts ok)) = readWraps s3 \<and>
   readPos (snd (write_persist s3 d ts ok)) = readPos s3 \<and>
   m_bufferSize (snd (write_persist s3 d ts ok)) = m_bufferSize s3 \<and>
   m_hasWrapped (snd (write_persist s3 d ts ok)) = m_hasWrapped s3 \<and>
   m_writerQueue (snd (write_persist s3 d ts ok)) = m_writerQueue s3"
  by (simp add: write_persist_def MsgPacket_write_def Let_def trim_frame)

lemma write_wrap_frame:
  "writePos (write_wrap s ts) = (if m_bufferSize s \<le> writePos s then 0 else writePos s) \<and>
   m_wrapCount (write_wrap s ts) =
     (if m_bufferSize s \<le> writePos s then Suc (m_wrapCount s) else m_wrapCount s) \<and>
   m_wrapped (write_wrap s ts) =
     (if m_bufferSize s \<le> writePos s then \<not> m_wrapped s else m_wrapped s) \<and>
   m_hasWrapped (write_wrap s ts) = (m_bufferSize s \<le> writePos s \<or> m_hasWrapped s) \<and>
   readWraps (write_wrap s ts) = readWraps s \<and> readPos (write_wrap s ts) = readPos s \<and>
   m_bufferSize (write_wrap s ts) = m_bufferSize s \<and> storage (write_wrap s ts) = storage s \<and>
   m_indexList (write_wrap s ts) = m_indexList s \<and>
   m_writerQueue (write_wrap s ts) = m_writerQueue s \<and>
   m_queueStartTime (write_wrap s ts) =
     (if m_queueStartTime s = 0 then ts else m_queueStartTime s)"
  by (simp add: write_wrap_def Let_def)

text \<open>The two ways \<^verbatim>\<open>write\<close> returns: out of the loop, or after the loop.\<close>

lemma write_cases:
  assumes "write s d ts ok = Some (b, s')"
  obtains (aborted) "\<not> b"
      "write_loop (writePos (write_wrap s ts) + int (packetLength (data_p d))) (readPos s)
         (write_wrap s ts) = Some (False, s')"
    | (persisted) s3 where
      "write_loop (writePos (write_wrap s ts) + int (packetLength (data_p d))) (readPos s)
         (write_wrap s ts) = Some (True, s3)"
      "write_persist s3 d ts ok = (b, s')"
proof -
  let ?l = "write_loop (writePos (write_wrap s ts) + int (packetLength (data_p d))) (readPos s)
         (write_wrap s ts)"
  from assms obtain c s3 where l: "?l = Some (c, s3)"
    by (cases ?l) (auto simp: write_unfold)
  show thesis
  proof (cases c)
    case True
    with l assms have "write_persist s3 d ts ok = (b, s')" by (simp add: write_unfold)
    with l True show thesis using persisted by simp
  next
    case False
    with l assms have "\<not> b" "s3 = s'" by (simp_all add: write_unfold)
    with l False show thesis using aborted by simp
  qed
qed

lemma write_cursor:
  assumes "write s d ts ok = Some (b, s')"
  shows "writePos s' = (if m_bufferSize s \<le> writePos s then 0 else writePos s) +
                       (if b then int (packetLength (data_p d)) else 0) \<and>
         m_wrapCount s' =
           (if m_bufferSize s \<le> writePos s then Suc (m_wrapCount s) else m_wrapCount s) \<and>
         (b \<longrightarrow> ok \<and> storage s' (if m_bufferSize s \<le> writePos s then 0 else writePos s)
                = Some (data_p d))"
  using assms
proof (cases rule: write_cases)
  case aborted
  have "same_store (write_wrap s ts) s'" using write_loop_same_store[OF aborted(2)] by simp
  with aborted(1) show ?thesis by (simp add: same_store_def write_wrap_frame)
next
  case (persisted s3)
  have ss: "same_store (write_wrap s ts) s3"
    using write_loop_same_store[OF persisted(1)] by simp
  have "b = ok" using persisted(2) write_persist_frame[of s3 d ts ok] by simp
  moreover have "writePos s' = writePos s3 + (if ok then int (packetLength (data_p d)) else 0)"
    and "m_wrapCount s' = m_wrapCount s3"
    using persisted(2) write_persist_frame[of s3 d ts ok] by simp_all
  moreover have "ok \<longrightarrow> storage s' (writePos s3) = Some (data_p d)"
    using persisted(2) by (auto simp: write_persist_def MsgPacket_write_def Let_def trim_frame)
  ultimately show ?thesis using ss by (simp add: same_store_def write_wrap_frame)
qed

text \<open>
  C2, as the code has it. \<^verbatim>\<open>write\<close> returns when every stored packet has a
  positive length. The write cursor wraps lazily and only between packets: a
  \<^verbatim>\<open>write\<close> that finds the cursor at or beyond the buffer size starts at offset 0
  and increments the wrap generation, any other starts where the cursor is and keeps
  the generation; a packet that is persisted is stored at that start offset and moves
  the cursor by its whole length, so the cursor can reach and pass the buffer size; a
  \<^verbatim>\<open>write\<close> that returns false leaves the cursor at the start offset.
\<close>

theorem write_offset_lazy_wrap:
  "(positive_lengths s \<longrightarrow> (\<exists>r. write s d ts ok = Some r)) \<and>
   (write s d ts ok = Some (b, s') \<longrightarrow>
      writePos s' = (if m_bufferSize s \<le> writePos s then 0 else writePos s) +
                    (if b then int (packetLength (data_p d)) else 0) \<and>
      m_wrapCount s' =
        (if m_bufferSize s \<le> writePos s then Suc (m_wrapCount s) else m_wrapCount s) \<and>
      (b \<longrightarrow> ok \<and> storage s' (if m_bufferSize s \<le> writePos s then 0 else writePos s)
             = Some (data_p d)))"
  using write_returns[of s d ts ok] write_cursor[of s d ts ok b s'] by blast

text \<open>
  A wrapping write that persists (the reader has consumed the first packet), and a
  wrapping write that returns false (the reader has consumed nothing).
\<close>

theorem write_offset_lazy_wrap_witness:
  "positive_lengths overshoot_state \<and>
   write (overshoot_state\<lparr>readPos := 30\<rparr>) (PacketData (pk 5 25) scAUDIO 0) 5 True =
     Some (True, overshoot_state\<lparr>readPos := 30, writePos := 25, m_wrapped := True,
             m_hasWrapped := True, m_wrapCount := 1,
             storage := (storage overshoot_state)(0 := Some (pk 5 25)),
             deleted := deleted overshoot_state @ [pk 5 25]\<rparr>) \<and>
   write overshoot_state (PacketData (pk 5 30) scAUDIO 0) 5 True =
     Some (False, overshoot_state\<lparr>writePos := 0, m_hasWrapped := True, m_wrapCount := 1,
             readWraps := 1\<rparr>)"
  using write_offset_lazy_wrap[of "overshoot_state\<lparr>readPos := 30\<rparr>"
      "PacketData (pk 5 25) scAUDIO 0" 5 True True
      "overshoot_state\<lparr>readPos := 30, writePos := 25, m_wrapped := True,
             m_hasWrapped := True, m_wrapCount := 1,
             storage := (storage overshoot_state)(0 := Some (pk 5 25)),
             deleted := deleted overshoot_state @ [pk 5 25]\<rparr>"]
    write_offset_lazy_wrap[of overshoot_state "PacketData (pk 5 30) scAUDIO 0" 5 True False
      "overshoot_state\<lparr>writePos := 0, m_hasWrapped := True, m_wrapCount := 1,
             readWraps := 1\<rparr>"]
  by (auto simp: eval_defs init_def overshoot_state_def positive_lengths_def)

text \<open>
  C2 as stated fails after four writes of 30 bytes into a buffer of 100 bytes: 120
  bytes are written, the write offset is 120 and not 120 mod 100 = 20, and the wrap
  generation is 0 and not 120 div 100 = 1.
\<close>

theorem write_offset_mod_counterexample:
  "write_seq (init 100)
     [(PacketData (pk 1 30) scAUDIO 0, 1), (PacketData (pk 2 30) scAUDIO 0, 2),
      (PacketData (pk 3 30) scAUDIO 0, 3), (PacketData (pk 4 30) scAUDIO 0, 4)]
     = Some overshoot_state \<and>
   m_bufferSize overshoot_state < 30 + 30 + 30 + 30 \<and>
   writePos overshoot_state = 120 \<and>
   writePos overshoot_state \<noteq> (30 + 30 + 30 + 30) mod m_bufferSize overshoot_state \<and>
   m_wrapCount overshoot_state = 0 \<and>
   int (m_wrapCount overshoot_state) \<noteq> (30 + 30 + 30 + 30) div m_bufferSize overshoot_state"
  by (simp add: eval_defs init_def overshoot_state_def)

subsection \<open>The bounded submission queue\<close>

lemma queue_all_retains:
  "m_writerQueue (queue_all s ds) =
     m_writerQueue s @ take (400 - length (m_writerQueue s)) ds \<and>
   deleted (queue_all s ds) =
     deleted s @ map data_p (drop (400 - length (m_writerQueue s)) ds)"
proof (induction ds arbitrary: s)
  case Nil
  show ?case by simp
next
  case (Cons d ds)
  show ?case
  proof (cases "400 \<le> length (m_writerQueue s)")
    case True
    then show ?thesis using Cons.IH[of "queue s (data_p d) (data_content d) (data_pts d)"]
      by (simp add: queue_def)
  next
    case False
    then have "400 - length (m_writerQueue s) = Suc (400 - Suc (length (m_writerQueue s)))"
      by simp
    then show ?thesis using False Cons.IH[of "queue s (data_p d) (data_content d) (data_pts d)"]
      by (simp add: queue_def)
  qed
qed

text \<open>No operation lets the submission queue grow beyond 400 entries.\<close>

lemma write_writerQueue:
  assumes "write s d ts ok = Some (b, s')"
  shows "m_writerQueue s' = m_writerQueue s"
  using assms
proof (cases rule: write_cases)
  case aborted
  have "same_store (write_wrap s ts) s'" using write_loop_same_store[OF aborted(2)] by simp
  then show ?thesis by (simp add: same_store_def write_wrap_frame)
next
  case (persisted s3)
  have "same_store (write_wrap s ts) s3" using write_loop_same_store[OF persisted(1)] by simp
  moreover have "m_writerQueue s' = m_writerQueue s3"
    using persisted(2) write_persist_frame[of s3 d ts ok] by simp
  ultimately show ?thesis by (simp add: same_store_def write_wrap_frame)
qed

lemma reachable_queue_bound: "reachable s \<Longrightarrow> length (m_writerQueue s) \<le> 400"
proof (induction rule: reachable.induct)
  case (r_init bufferSize)
  show ?case by (simp add: init_def)
next
  case (r_queue s p content pts')
  then show ?case by (simp add: queue_def)
next
  case (r_writer s timeStamp ok b s')
  show ?case
  proof (cases "m_writerQueue s")
    case Nil
    with r_writer show ?thesis by (simp add: writer_step_def)
  next
    case (Cons d rest)
    with r_writer(2) have "write (s\<lparr>m_writerQueue := rest\<rparr>) d timeStamp ok = Some (b, s')"
      by (simp add: writer_step_def)
    then have "m_writerQueue s' = rest" using write_writerQueue by fastforce
    with Cons r_writer(3) show ?thesis by simp
  qed
next
  case (r_read s keyFrameMode)
  have "same_store (if keyFrameMode then seekNextKeyFrame s else s)
      (snd (internalRead (if keyFrameMode then seekNextKeyFrame s else s)))"
    by (rule internalRead_same_store[of _ "fst (internalRead
        (if keyFrameMode then seekNextKeyFrame s else s))"]) simp
  then have "m_writerQueue (snd (read s keyFrameMode)) = m_writerQueue s"
    by (simp add: read_def same_store_def seekNextKeyFrame_def split: option.splits)
  with r_read show ?case by simp
next
  case (r_seek s wallclockPositionMs)
  then show ?case using seek_frame[of s wallclockPositionMs] by (simp add: same_store_def)
next
  case (r_pause s on)
  then show ?case by (simp add: pause_def)
qed

text \<open>
  C7. In every reachable state the submission queue holds at most 400 entries.
  \<^verbatim>\<open>queue\<close> on a queue of 400 entries (or more) releases the submitted packet and
  leaves the queue as it is; below 400 it appends the entry; a queue of at most 400
  entries stays so; and 401 calls on an empty queue with no writer running retain the
  first 400 entries and release the last packet. Taking the lock is not modelled.
\<close>

theorem queue_bounded:
  "(reachable s \<longrightarrow> length (m_writerQueue s) \<le> 400) \<and>
   (400 \<le> length (m_writerQueue s) \<longrightarrow>
      queue s p c t = s\<lparr>deleted := deleted s @ [p]\<rparr> \<and>
      m_writerQueue (queue s p c t) = m_writerQueue s) \<and>
   (length (m_writerQueue s) < 400 \<longrightarrow>
      queue s p c t = s\<lparr>m_writerQueue := m_writerQueue s @ [PacketData p c t]\<rparr>) \<and>
   (length (m_writerQueue s) \<le> 400 \<longrightarrow> length (m_writerQueue (queue s p c t)) \<le> 400) \<and>
   (m_writerQueue s = [] \<and> length ds = 401 \<longrightarrow>
      m_writerQueue (queue_all s ds) = take 400 ds \<and>
      length (m_writerQueue (queue_all s ds)) = 400 \<and>
      deleted (queue_all s ds) = deleted s @ [data_p (last ds)])"
proof -
  have "m_writerQueue s = [] \<and> length ds = 401 \<longrightarrow> drop 400 ds = [last ds]"
  proof
    assume a: "m_writerQueue s = [] \<and> length ds = 401"
    then have "ds \<noteq> []" by auto
    then have "ds = butlast ds @ [last ds]" by simp
    moreover have "length (butlast ds) = 400" using a by simp
    ultimately show "drop 400 ds = [last ds]"
      by (metis append_eq_conv_conj)
  qed
  then show ?thesis
    using reachable_queue_bound[of s] by (auto simp: queue_def queue_all_retains)
qed

theorem queue_bounded_witness:
  "reachable (init 100) \<and> m_writerQueue (init 100) = [] \<and>
   length (replicate 401 (PacketData (pk 7 10) scAUDIO 0)) = 401 \<and>
   length (m_writerQueue (queue_all (init 100) (replicate 401 (PacketData (pk 7 10) scAUDIO 0))))
     = 400 \<and>
   deleted (queue_all (init 100) (replicate 401 (PacketData (pk 7 10) scAUDIO 0))) = [pk 7 10] \<and>
   queue (queue_all (init 100) (replicate 401 (PacketData (pk 7 10) scAUDIO 0)))
       (pk 8 10) scVIDEO 0 =
     (queue_all (init 100) (replicate 401 (PacketData (pk 7 10) scAUDIO 0)))
       \<lparr>deleted := [pk 7 10, pk 8 10]\<rparr> \<and>
   queue (init 100) (pk 8 10) scVIDEO 0 =
     (init 100)\<lparr>m_writerQueue := [PacketData (pk 8 10) scVIDEO 0]\<rparr>"
proof -
  let ?d = "PacketData (pk 7 10) scAUDIO 0"
  let ?s = "queue_all (init 100) (replicate 401 ?d)"
  have e: "m_writerQueue (init 100) = []" "deleted (init 100) = []"
    by (simp_all add: init_def)
  have l: "last (replicate 401 ?d) = ?d"
    by (simp add: last_replicate)
  have a: "length (m_writerQueue ?s) = 400 \<and> deleted ?s = [pk 7 10]"
    using queue_bounded[of "init 100" _ _ _ "replicate 401 ?d"] e l by simp
  then have b: "queue ?s (pk 8 10) scVIDEO 0 = ?s\<lparr>deleted := [pk 7 10, pk 8 10]\<rparr>"
    using queue_bounded[of ?s "pk 8 10" scVIDEO 0 "[]"] by simp
  have c: "queue (init 100) (pk 8 10) scVIDEO 0 =
      (init 100)\<lparr>m_writerQueue := [PacketData (pk 8 10) scVIDEO 0]\<rparr>"
    using queue_bounded[of "init 100" "pk 8 10" scVIDEO 0 "[]"] e by simp
  from e a b c r_init[of 100] show ?thesis by simp
qed

subsection \<open>The wrapped flag\<close>

lemma internalRead_wrapped:
  "m_wrapped (snd (internalRead s)) =
     (if m_bufferSize s \<le> readPos s then \<not> m_wrapped s else m_wrapped s) \<and>
   readWraps (snd (internalRead s)) =
     (if m_bufferSize s \<le> readPos s then Suc (readWraps s) else readWraps s)"
  by (simp add: internalRead_def MsgPacket_read_def Let_def split: option.splits)

lemma internalRead_parity:
  assumes "wrap_parity s"
  shows "wrap_parity (snd (internalRead s))"
proof -
  have "same_store s (snd (internalRead s))"
    by (rule internalRead_same_store[of s "fst (internalRead s)"]) simp
  then have "m_wrapCount (snd (internalRead s)) = m_wrapCount s"
    by (simp add: same_store_def)
  with assms show ?thesis
    by (simp add: wrap_parity_def internalRead_wrapped)
qed

lemma write_loop_parity:
  assumes "write_loop pe rp s = Some y"
  shows "wrap_parity s \<longrightarrow> wrap_parity (snd y)"
proof (rule write_loop.raw_induct[where P = "\<lambda>pe rp s y. wrap_parity s \<longrightarrow> wrap_parity (snd y)",
         OF _ assms], goal_cases)
  case (1 f pe rp s y)
  note IH = 1(1) and eq = 1(2)
  show ?case
  proof (cases "rp \<le> pe \<and> m_wrapped s")
    case False
    with eq show ?thesis by auto
  next
    case True
    obtain r s1 where ir: "internalRead s = (r, s1)" by (cases "internalRead s")
    have p1: "wrap_parity s \<longrightarrow> wrap_parity s1"
      using internalRead_parity[of s] ir by simp
    show ?thesis
    proof (cases r)
      case None
      with eq True ir p1 show ?thesis by auto
    next
      case (Some skipped)
      with eq True ir have "f pe rp s1 = Some y" by simp
      then have "wrap_parity s1 \<longrightarrow> wrap_parity (snd y)" by (rule IH)
      with p1 show ?thesis by simp
    qed
  qed
qed

lemma write_parity:
  assumes "write s d ts ok = Some (b, s')" "wrap_parity s"
  shows "wrap_parity s'"
proof -
  have p2: "wrap_parity (write_wrap s ts)"
    using assms(2) by (simp add: wrap_parity_def write_wrap_frame)
  from assms(1) show ?thesis
  proof (cases rule: write_cases)
    case aborted
    then show ?thesis using write_loop_parity[OF aborted(2)] p2 by simp
  next
    case (persisted s3)
    have "wrap_parity s3" using write_loop_parity[OF persisted(1)] p2 by simp
    then show ?thesis
      using persisted(2) write_persist_frame[of s3 d ts ok] by (simp add: wrap_parity_def)
  qed
qed

lemma seekNextKeyFrame_frame:
  "same_store s (seekNextKeyFrame s) \<and> m_wrapped (seekNextKeyFrame s) = m_wrapped s \<and>
   readWraps (seekNextKeyFrame s) = readWraps s"
  by (simp add: seekNextKeyFrame_def same_store_def split: option.splits)

lemma read_parity: "wrap_parity s \<Longrightarrow> wrap_parity (snd (read s k))"
proof -
  assume a: "wrap_parity s"
  then have "wrap_parity (seekNextKeyFrame s)"
    using seekNextKeyFrame_frame[of s] by (simp add: wrap_parity_def same_store_def)
  with a show ?thesis
    by (simp add: read_def internalRead_parity)
qed

lemma reachable_parity: "reachable s \<Longrightarrow> wrap_parity s"
proof (induction rule: reachable.induct)
  case (r_init bufferSize)
  show ?case by (simp add: wrap_parity_def init_def)
next
  case (r_queue s p content pts')
  then show ?case by (simp add: wrap_parity_def queue_def)
next
  case (r_writer s timeStamp ok b s')
  show ?case
  proof (cases "m_writerQueue s")
    case Nil
    with r_writer show ?thesis by (simp add: writer_step_def)
  next
    case (Cons d rest)
    with r_writer(2) have w: "write (s\<lparr>m_writerQueue := rest\<rparr>) d timeStamp ok = Some (b, s')"
      by (simp add: writer_step_def)
    have "wrap_parity (s\<lparr>m_writerQueue := rest\<rparr>)"
      using r_writer(3) by (simp add: wrap_parity_def)
    with w show ?thesis by (rule write_parity)
  qed
next
  case (r_read s keyFrameMode)
  then show ?case by (simp add: read_parity)
next
  case (r_seek s wallclockPositionMs)
  then show ?case using seek_frame[of s wallclockPositionMs]
    by (simp add: wrap_parity_def same_store_def)
next
  case (r_pause s on)
  then show ?case by (simp add: wrap_parity_def pause_def)
qed

text \<open>
  In every reachable state \<open>m_wrapped\<close> is the parity of the number of wraps of the
  write cursor and of the read cursor together: a \<^verbatim>\<open>write\<close> that finds the write
  cursor at or beyond the buffer size toggles it, and so does an \<^verbatim>\<open>internalRead\<close>
  that finds the read cursor there; nothing else changes it.
\<close>

lemma reachable_wrapped_parity:
  assumes "reachable s"
  shows "m_wrapped s = odd (m_wrapCount s + readWraps s) \<and>
         m_wrapped (write_wrap s ts) =
           (if m_bufferSize s \<le> writePos s then \<not> m_wrapped s else m_wrapped s) \<and>
         m_wrapped (snd (internalRead s)) =
           (if m_bufferSize s \<le> readPos s then \<not> m_wrapped s else m_wrapped s)"
  using reachable_parity[OF assms]
  by (simp add: wrap_parity_def write_wrap_frame internalRead_wrapped)

text \<open>The state \<open>caught_up_state\<close> is reachable.\<close>

lemma caught_up_state_reachable: "reachable caught_up_state"
proof -
  let ?s1 = "(init 50)\<lparr>writePos := 30, storage := (\<lambda>_. None)(0 := Some (pk 1 30)),
       m_queueStartTime := 100, deleted := [pk 1 30]\<rparr>"
  let ?s2 = "(init 50)\<lparr>writePos := 60,
       storage := ((\<lambda>_. None)(0 := Some (pk 1 30)))(30 := Some (pk 2 30)),
       m_queueStartTime := 100, deleted := [pk 1 30, pk 2 30]\<rparr>"
  have "reachable (queue (init 50) (pk 1 30) scAUDIO 0)"
    by (rule r_queue[OF r_init])
  moreover have "writer_step (queue (init 50) (pk 1 30) scAUDIO 0) 100 True = Some (True, ?s1)"
    by (simp add: eval_defs init_def)
  ultimately have "reachable ?s1" by (rule r_writer)
  then have "reachable (queue ?s1 (pk 2 30) scAUDIO 0)" by (rule r_queue)
  moreover have "writer_step (queue ?s1 (pk 2 30) scAUDIO 0) 200 True = Some (True, ?s2)"
    by (simp add: eval_defs init_def)
  ultimately have "reachable ?s2" by (rule r_writer)
  then have "reachable (snd (read (snd (read ?s2 False)) False))"
    by (intro r_read)
  moreover have "snd (read (snd (read ?s2 False)) False) = caught_up_state"
    by (simp add: eval_defs init_def caught_up_state_def)
  ultimately show ?thesis by simp
qed

text \<open>
  C9 says that in every reachable state \<open>m_wrapped\<close> is set exactly when the write
  cursor has completed one more lap than the read cursor. The code breaks this in the
  reachable state \<open>caught_up_state\<close>: the reader has consumed everything, the flag is
  clear and no cursor has wrapped. The next \<^verbatim>\<open>read\<close> wraps the read cursor before
  the write cursor has wrapped, sets the flag (write wraps 0, read wraps 1) and returns
  the first packet a second time.
\<close>

theorem read_wraps_first:
  "reachable caught_up_state \<and>
   readPos caught_up_state = writePos caught_up_state \<and> \<not> m_wrapped caught_up_state \<and>
   m_wrapCount caught_up_state = 0 \<and> readWraps caught_up_state = 0 \<and>
   read caught_up_state False = (Some (pk 1 30), read_lap_state) \<and>
   reachable read_lap_state \<and> m_wrapped read_lap_state \<and>
   m_wrapCount read_lap_state = 0 \<and> readWraps read_lap_state = 1 \<and>
   m_wrapCount read_lap_state \<noteq> readWraps read_lap_state + 1"
proof -
  have r: "read caught_up_state False = (Some (pk 1 30), read_lap_state)"
    by (simp add: eval_defs init_def caught_up_state_def read_lap_state_def)
  have "reachable (snd (read caught_up_state False))"
    using caught_up_state_reachable by (rule r_read)
  then have "reachable read_lap_state" using r by simp
  with r caught_up_state_reachable show ?thesis
    by (simp add: caught_up_state_def read_lap_state_def init_def)
qed

subsection \<open>The start of the window\<close>

lemma trim_index:
  "m_indexList (trim s pos) =
     (if m_hasWrapped s \<and> m_indexList s \<noteq> [] \<and> filePosition (hd (m_indexList s)) < pos \<and>
         wrapCount (hd (m_indexList s)) < m_wrapCount s
      then tl (m_indexList s) else m_indexList s)"
  by (auto simp: trim_def Let_def)

lemma trim_start_time:
  "m_queueStartTime (trim s pos) =
     (if m_hasWrapped s \<and> m_indexList (trim s pos) \<noteq> []
      then wallclockTime (hd (m_indexList (trim s pos))) else m_queueStartTime s)"
  by (auto simp: trim_def Let_def)

lemma trim_same_store:
  assumes "same_store a b"
  shows "m_queueStartTime (trim b pos) = m_queueStartTime (trim a pos) \<and>
         m_indexList (trim b pos) = m_indexList (trim a pos)"
proof -
  from assms have "m_hasWrapped b = m_hasWrapped a" "m_indexList b = m_indexList a"
    "m_wrapCount b = m_wrapCount a" "m_queueStartTime b = m_queueStartTime a"
    by (simp_all add: same_store_def)
  then have i: "m_indexList (trim b pos) = m_indexList (trim a pos)"
    by (simp add: trim_index)
  with \<open>m_hasWrapped b = m_hasWrapped a\<close> \<open>m_queueStartTime b = m_queueStartTime a\<close>
  have "m_queueStartTime (trim b pos) = m_queueStartTime (trim a pos)"
    by (simp add: trim_start_time)
  with i show ?thesis by simp
qed

lemma write_persist_start_time:
  "m_queueStartTime (snd (write_persist s3 d ts ok)) =
     m_queueStartTime (trim s3 (writePos s3 + int (packetLength (data_p d))))"
  by (simp add: write_persist_def MsgPacket_write_def Let_def)

lemma write_persist_index:
  "m_indexList (snd (write_persist s3 d ts ok)) =
     m_indexList (trim s3 (writePos s3 + int (packetLength (data_p d)))) @
     (if isIFrame (data_p d) \<and> data_content d = scVIDEO
      then [\<lparr>filePosition = writePos s3, wallclockTime = ts, pts = data_pts d,
              wrapCount = m_wrapCount s3\<rparr>]
      else [])"
  by (simp add: write_persist_def MsgPacket_write_def Let_def trim_frame)

text \<open>
  C6, as the code has it. A \<^verbatim>\<open>write\<close> that finds the start time unset (reading
  as 0) sets it to the current wall-clock time first, whether or not the write then
  succeeds. A write that leaves through the skip loop ends with that value and the
  index as it was. Every other write, whether or not it then persists its packet, ends
  with the start time that pruning leaves, and with the pruned index followed by the
  entry of the packet when that is a video keyframe. Pruning does nothing before the
  first wrap of the write cursor or on an empty index; otherwise it removes the oldest
  entry when that entry is of an older generation and lies before the end of the packet
  being written, and then, whether or not it has removed an entry, sets the start time
  to the wall-clock time of the oldest entry left, leaving it as it is when none is
  left. \<^verbatim>\<open>write\<close> returns when every stored packet has a positive length.
\<close>

theorem queue_start_time:
  "(write_loop (writePos (write_wrap s ts) + int (packetLength (data_p d))) (readPos s)
        (write_wrap s ts) = Some (False, s3) \<longrightarrow>
      write s d ts ok = Some (False, s3) \<and>
      m_queueStartTime s3 = (if m_queueStartTime s = 0 then ts else m_queueStartTime s) \<and>
      m_indexList s3 = m_indexList s) \<and>
   (write_loop (writePos (write_wrap s ts) + int (packetLength (data_p d))) (readPos s)
        (write_wrap s ts) = Some (True, s3) \<longrightarrow>
      (\<exists>s'. write s d ts ok = Some (ok, s') \<and>
         m_queueStartTime s' =
           m_queueStartTime (trim (write_wrap s ts)
              (writePos (write_wrap s ts) + int (packetLength (data_p d)))) \<and>
         m_indexList s' =
           m_indexList (trim (write_wrap s ts)
              (writePos (write_wrap s ts) + int (packetLength (data_p d)))) @
           (if isIFrame (data_p d) \<and> data_content d = scVIDEO
            then [\<lparr>filePosition = writePos (write_wrap s ts), wallclockTime = ts,
                    pts = data_pts d, wrapCount = m_wrapCount (write_wrap s ts)\<rparr>]
            else []))) \<and>
   (write s d ts ok = Some (b, s') \<and> \<not> m_hasWrapped s' \<longrightarrow>
      m_queueStartTime s' = (if m_queueStartTime s = 0 then ts else m_queueStartTime s)) \<and>
   m_queueStartTime (write_wrap s ts) =
     (if m_queueStartTime s = 0 then ts else m_queueStartTime s) \<and>
   m_indexList (trim s pos) =
     (if m_hasWrapped s \<and> m_indexList s \<noteq> [] \<and> filePosition (hd (m_indexList s)) < pos \<and>
         wrapCount (hd (m_indexList s)) < m_wrapCount s
      then tl (m_indexList s) else m_indexList s) \<and>
   m_queueStartTime (trim s pos) =
     (if m_hasWrapped s \<and> m_indexList (trim s pos) \<noteq> []
      then wallclockTime (hd (m_indexList (trim s pos))) else m_queueStartTime s) \<and>
   (positive_lengths s \<longrightarrow> (\<exists>r. write s d ts ok = Some r))"
proof -
  let ?s2 = "write_wrap s ts"
  let ?pe = "writePos ?s2 + int (packetLength (data_p d))"
  let ?loop = "write_loop ?pe (readPos s) ?s2"
  have ab: "write s d ts ok = Some (False, s3) \<and>
      m_queueStartTime s3 = (if m_queueStartTime s = 0 then ts else m_queueStartTime s) \<and>
      m_indexList s3 = m_indexList s"
    if l: "?loop = Some (False, s3)"
  proof -
    have "same_store ?s2 s3" using write_loop_same_store[OF l] by simp
    then have "m_queueStartTime s3 = (if m_queueStartTime s = 0 then ts else m_queueStartTime s)
        \<and> m_indexList s3 = m_indexList s"
      by (simp add: same_store_def write_wrap_frame)
    moreover have "write s d ts ok = Some (False, s3)" using l by (simp add: write_unfold)
    ultimately show ?thesis by simp
  qed
  have pe: "\<exists>s'. write s d ts ok = Some (ok, s') \<and>
         m_queueStartTime s' = m_queueStartTime (trim ?s2 ?pe) \<and>
         m_indexList s' = m_indexList (trim ?s2 ?pe) @
           (if isIFrame (data_p d) \<and> data_content d = scVIDEO
            then [\<lparr>filePosition = writePos ?s2, wallclockTime = ts,
                    pts = data_pts d, wrapCount = m_wrapCount ?s2\<rparr>]
            else [])"
    if l: "?loop = Some (True, s3)"
  proof -
    have ss: "same_store ?s2 s3" using write_loop_same_store[OF l] by simp
    then have eqs: "writePos s3 = writePos ?s2" "m_wrapCount s3 = m_wrapCount ?s2"
      by (simp_all add: same_store_def)
    let ?r = "write_persist s3 d ts ok"
    have w: "write s d ts ok = Some ?r" using l by (simp add: write_unfold)
    have f: "fst ?r = ok" using write_persist_frame[of s3 d ts ok] by simp
    have q: "m_queueStartTime (snd ?r) = m_queueStartTime (trim ?s2 ?pe)"
      using write_persist_start_time[of s3 d ts ok] trim_same_store[OF ss, of ?pe] eqs by simp
    have i: "m_indexList (snd ?r) = m_indexList (trim ?s2 ?pe) @
           (if isIFrame (data_p d) \<and> data_content d = scVIDEO
            then [\<lparr>filePosition = writePos ?s2, wallclockTime = ts,
                    pts = data_pts d, wrapCount = m_wrapCount ?s2\<rparr>]
            else [])"
      using write_persist_index[of s3 d ts ok] trim_same_store[OF ss, of ?pe] eqs by simp
    have "write s d ts ok = Some (ok, snd ?r)" using w f by (cases ?r) auto
    with q i show ?thesis by blast
  qed
  have a: "m_queueStartTime s' = (if m_queueStartTime s = 0 then ts else m_queueStartTime s)"
    if w: "write s d ts ok = Some (b, s')" and nw: "\<not> m_hasWrapped s'"
    using w
  proof (cases rule: write_cases)
    case aborted
    have "same_store ?s2 s'" using write_loop_same_store[OF aborted(2)] by simp
    then show ?thesis by (simp add: same_store_def write_wrap_frame)
  next
    case (persisted s3)
    have ss: "same_store ?s2 s3" using write_loop_same_store[OF persisted(1)] by simp
    have "m_hasWrapped s' = m_hasWrapped s3"
      using persisted(2) write_persist_frame[of s3 d ts ok] by simp
    with nw have "\<not> m_hasWrapped s3" by simp
    then have "m_queueStartTime (trim s3 (writePos s3 + int (packetLength (data_p d))))
        = m_queueStartTime s3"
      by (simp add: trim_def)
    then have "m_queueStartTime s' = m_queueStartTime s3"
      using persisted(2) write_persist_start_time[of s3 d ts ok] by simp
    with ss show ?thesis by (simp add: same_store_def write_wrap_frame)
  qed
  have c: "positive_lengths s \<longrightarrow> (\<exists>r. write s d ts ok = Some r)"
    using write_returns[of s d ts ok] by blast
  have t: "m_queueStartTime (write_wrap s ts) =
       (if m_queueStartTime s = 0 then ts else m_queueStartTime s) \<and>
     m_indexList (trim s pos) =
       (if m_hasWrapped s \<and> m_indexList s \<noteq> [] \<and> filePosition (hd (m_indexList s)) < pos \<and>
           wrapCount (hd (m_indexList s)) < m_wrapCount s
        then tl (m_indexList s) else m_indexList s) \<and>
     m_queueStartTime (trim s pos) =
       (if m_hasWrapped s \<and> m_indexList (trim s pos) \<noteq> []
        then wallclockTime (hd (m_indexList (trim s pos))) else m_queueStartTime s)"
    using trim_index[of s pos] trim_start_time[of s pos] write_wrap_frame[of s ts] by simp
  show ?thesis using ab pe a c t by blast
qed

text \<open>The state \<open>refresh_state\<close> comes about as described.\<close>

lemma refresh_state_run:
  "write_seq (init 50) [(PacketData (pk 1 30) scVIDEO 3, 100), (PacketData (kf 2 30) scVIDEO 7, 200)]
     = Some (refresh_state\<lparr>readPos := 0\<rparr>) \<and>
   snd (read (snd (read (refresh_state\<lparr>readPos := 0\<rparr>) False)) False) = refresh_state"
  by (simp add: eval_defs init_def refresh_state_def)

text \<open>
  A first write into a new queue that fails to persist, and the first write after a
  wrap into \<open>refresh_state\<close>, failing and succeeding to persist: both end with the start
  time 200 of the oldest keyframe.
\<close>

theorem queue_start_time_witness:
  "positive_lengths (init 50) \<and> positive_lengths refresh_state \<and>
   m_queueStartTime (init 50) = 0 \<and>
   write (init 50) (PacketData (pk 1 30) scVIDEO 3) 100 False =
     Some (False, (init 50)\<lparr>m_queueStartTime := 100, deleted := [pk 1 30]\<rparr>) \<and>
   write_loop (writePos (write_wrap refresh_state 300) + int (packetLength (pk 3 20)))
     (readPos refresh_state) (write_wrap refresh_state 300) =
     Some (True, write_wrap refresh_state 300) \<and>
   write refresh_state (PacketData (pk 3 20) scVIDEO 9) 300 False =
     Some (False, refresh_state\<lparr>writePos := 0, m_wrapped := True, m_hasWrapped := True,
        m_wrapCount := 1, m_queueStartTime := 200,
        deleted := deleted refresh_state @ [pk 3 20]\<rparr>) \<and>
   write refresh_state (PacketData (pk 3 20) scVIDEO 9) 300 True =
     Some (True, refresh_state\<lparr>writePos := 20, m_wrapped := True, m_hasWrapped := True,
        m_wrapCount := 1, storage := (storage refresh_state)(0 := Some (pk 3 20)),
        m_queueStartTime := 200, deleted := deleted refresh_state @ [pk 3 20]\<rparr>) \<and>
   m_queueStartTime (trim (write_wrap refresh_state 300)
      (writePos (write_wrap refresh_state 300) + int (packetLength (pk 3 20)))) = 200"
  using queue_start_time[of "init 50" 100 "PacketData (pk 1 30) scVIDEO 3"
        "init 50\<lparr>m_queueStartTime := 100\<rparr>" False False
        "(init 50)\<lparr>m_queueStartTime := 100, deleted := [pk 1 30]\<rparr>" 0]
    queue_start_time[of refresh_state 300 "PacketData (pk 3 20) scVIDEO 9"
        "write_wrap refresh_state 300" False False
        "refresh_state\<lparr>writePos := 0, m_wrapped := True, m_hasWrapped := True,
          m_wrapCount := 1, m_queueStartTime := 200,
          deleted := deleted refresh_state @ [pk 3 20]\<rparr>" 20]
    queue_start_time[of refresh_state 300 "PacketData (pk 3 20) scVIDEO 9"
        "write_wrap refresh_state 300" True True
        "refresh_state\<lparr>writePos := 20, m_wrapped := True, m_hasWrapped := True,
          m_wrapCount := 1, storage := (storage refresh_state)(0 := Some (pk 3 20)),
          m_queueStartTime := 200, deleted := deleted refresh_state @ [pk 3 20]\<rparr>" 20]
  by (auto simp: eval_defs init_def refresh_state_def positive_lengths_def)

text \<open>
  C6 as stated fails twice. A first write that fails to persist its packet has
  recorded the start time 100 all the same. And the write into \<open>refresh_state\<close>, the
  first after the wrap, removes no index entry (the index is the same before and after)
  and yet moves the start time from 100 to 200, the time of the oldest keyframe.
\<close>

theorem queue_start_time_counterexample:
  "write (init 50) (PacketData (pk 1 30) scVIDEO 3) 100 False =
     Some (False, (init 50)\<lparr>m_queueStartTime := 100, deleted := [pk 1 30]\<rparr>) \<and>
   m_queueStartTime refresh_state = 100 \<and>
   write refresh_state (PacketData (pk 3 20) scVIDEO 9) 300 True =
     Some (True, refresh_state\<lparr>writePos := 20, m_wrapped := True, m_hasWrapped := True,
        m_wrapCount := 1, storage := (storage refresh_state)(0 := Some (pk 3 20)),
        m_queueStartTime := 200, deleted := deleted refresh_state @ [pk 3 20]\<rparr>) \<and>
   m_indexList (refresh_state\<lparr>writePos := 20, m_wrapped := True, m_hasWrapped := True,
        m_wrapCount := 1, storage := (storage refresh_state)(0 := Some (pk 3 20)),
        m_queueStartTime := 200, deleted := deleted refresh_state @ [pk 3 20]\<rparr>)
     = m_indexList refresh_state"
  by (simp add: eval_defs init_def refresh_state_def)

subsection \<open>Overrun protection\<close>







text \<open>The states \<open>full_state\<close> and \<open>lapped_state\<close> come about as described.\<close>

lemma lapped_state_run:
  "write_seq (init 40)
     [(PacketData (pk 1 10) scAUDIO 0, 1), (PacketData (pk 2 10) scAUDIO 0, 2),
      (PacketData (pk 3 10) scAUDIO 0, 3), (PacketData (pk 4 10) scAUDIO 0, 4)]
     = Some full_state \<and>
   read full_state False = (Some (pk 1 10), full_state\<lparr>readPos := 10\<rparr>) \<and>
   write (full_state\<lparr>readPos := 10\<rparr>) (PacketData (pk 5 5) scAUDIO 0) 5 True =
     Some (True, lapped_state)"
  by (simp add: eval_defs init_def full_state_def lapped_state_def)




end
